theory Spec2Isabelle
  imports Main "HOL-Library.Sublist"
begin

section \<open>Python string primitives\<close>

text \<open>
  Python \<open>str\<close> values are modelled as \<open>string\<close> (lists of \<open>char\<close>); the model
  covers code points below 256.  The five characters that cannot be written inside an
  Isabelle string literal are named here.
\<close>

abbreviation dquote :: char where "dquote \<equiv> CHR 0x22"
abbreviation squote :: char where "squote \<equiv> CHR 0x27"
abbreviation newline :: char where "newline \<equiv> CHR 0x0A"
abbreviation carriage :: char where "carriage \<equiv> CHR 0x0D"
abbreviation backslash :: char where "backslash \<equiv> CHR 0x5C"

text \<open>\<open>s.rstrip(chars)\<close>: drop the longest suffix made of characters of \<open>chars\<close>.\<close>

definition rstrip :: "string \<Rightarrow> string \<Rightarrow> string" where
  "rstrip s chars = rev (dropWhile (\<lambda>c. c \<in> set chars) (rev s))"

text \<open>\<open>sub in s\<close>: \<open>sub\<close> occurs in \<open>s\<close> as a contiguous substring.\<close>

fun str_contains :: "string \<Rightarrow> string \<Rightarrow> bool" where
  "str_contains sub [] = (sub = [])"
| "str_contains sub (x # xs) = (prefix sub (x # xs) \<or> str_contains sub xs)"

text \<open>
  \<open>s.replace(old, new)\<close>: every non-overlapping occurrence of \<open>old\<close>, scanning from
  the left, becomes \<open>new\<close>.  With an empty \<open>old\<close> Python puts \<open>new\<close> before every
  character and at the end.
\<close>

function str_replace :: "string \<Rightarrow> string \<Rightarrow> string \<Rightarrow> string" where
  "str_replace old new [] = (if old = [] then new else [])"
| "str_replace old new (x # xs) =
     (if old = [] then new @ x # str_replace old new xs
      else if prefix old (x # xs)
        then new @ str_replace old new (drop (length old) (x # xs))
        else x # str_replace old new xs)"
  by pat_completeness auto
termination
  by (relation "measure (\<lambda>(old, new, s). length s)") auto

text \<open>\<open>sep.join(parts)\<close>.\<close>

fun str_join :: "string \<Rightarrow> string list \<Rightarrow> string" where
  "str_join sep [] = []"
| "str_join sep [p] = p"
| "str_join sep (p # q # ps) = p @ sep @ str_join sep (q # ps)"

text \<open>\<open>str(n)\<close> for an integer: decimal digits, with a minus sign when negative.\<close>

definition digit_char :: "nat \<Rightarrow> char" where
  "digit_char d = ''0123456789'' ! d"

function str_nat :: "nat \<Rightarrow> string" where
  "str_nat n = (if n < 10 then [digit_char n] else str_nat (n div 10) @ [digit_char (n mod 10)])"
  by pat_completeness auto
termination
  by (relation "measure id") auto

definition str_int :: "int \<Rightarrow> string" where
  "str_int i = (if i < 0 then CHR ''-'' # str_nat (nat (- i)) else str_nat (nat i))"

section \<open>Regular expressions: the fragment of \<open>re\<close> that the script uses\<close>

text \<open>
  A pattern is a list of groups, each a list of items: a literal text, one character of
  a class \<open>[...]\<close>, or a greedy repetition \<open>[^...]*\<close> or \<open>[^...]+\<close> of a negated class.
  The pattern is compiled with \<open>re.I\<close>: literals match letters of either case.  (The
  classes of the script's pattern hold no letters, so the flag does not touch them.)
\<close>

definition lower_char :: "char \<Rightarrow> char" where
  "lower_char c =
     (case map_of (zip ''ABCDEFGHIJKLMNOPQRSTUVWXYZ'' ''abcdefghijklmnopqrstuvwxyz'') c of
        Some l \<Rightarrow> l
      | None \<Rightarrow> c)"

definition ci_eq :: "char \<Rightarrow> char \<Rightarrow> bool" where
  "ci_eq a b = (lower_char a = lower_char b)"

fun ci_prefix :: "string \<Rightarrow> string \<Rightarrow> bool" where
  "ci_prefix [] s = True"
| "ci_prefix (c # cs) [] = False"
| "ci_prefix (c # cs) (x # xs) = (ci_eq c x \<and> ci_prefix cs xs)"

datatype re_item =
    Lit string
  | AnyOf "char list"
  | StarNoneOf "char list"
  | PlusNoneOf "char list"

type_synonym regex = "re_item list list"

text \<open>
  Backtracking over a greedy repetition: the continuation \<open>k\<close> is tried on the input
  after \<open>n\<close> repeated characters, then after \<open>n - 1\<close>, down to \<open>lo\<close>; the first success
  wins.
\<close>

fun try_down :: "(string \<Rightarrow> 'a option) \<Rightarrow> string \<Rightarrow> nat \<Rightarrow> nat \<Rightarrow> (nat \<times> 'a) option" where
  "try_down k s lo 0 = (if lo = 0 then map_option (Pair 0) (k s) else None)"
| "try_down k s lo (Suc n) =
     (if Suc n < lo then None
      else case k (drop (Suc n) s) of
             Some r \<Rightarrow> Some (Suc n, r)
           | None \<Rightarrow> try_down k s lo n)"

text \<open>
  Matching a list of items at the start of the input: the text each item matched, in
  order, for the first successful path of the backtracking search.
\<close>

fun match_items :: "re_item list \<Rightarrow> string \<Rightarrow> string list option" where
  "match_items [] s = Some []"
| "match_items (Lit l # its) s =
     (if ci_prefix l s
      then map_option (\<lambda>segs. take (length l) s # segs) (match_items its (drop (length l) s))
      else None)"
| "match_items (AnyOf cs # its) s =
     (case s of
        [] \<Rightarrow> None
      | x # xs \<Rightarrow> if x \<in> set cs then map_option (\<lambda>segs. [x] # segs) (match_items its xs) else None)"
| "match_items (StarNoneOf cs # its) s =
     map_option (\<lambda>(n, segs). take n s # segs)
       (try_down (match_items its) s 0 (length (takeWhile (\<lambda>c. c \<notin> set cs) s)))"
| "match_items (PlusNoneOf cs # its) s =
     map_option (\<lambda>(n, segs). take n s # segs)
       (try_down (match_items its) s 1 (length (takeWhile (\<lambda>c. c \<notin> set cs) s)))"

text \<open>The text of each group, from the texts of the items.\<close>

fun regroup :: "regex \<Rightarrow> string list \<Rightarrow> string list" where
  "regroup [] segs = []"
| "regroup (g # gs) segs = concat (take (length g) segs) # regroup gs (drop (length g) segs)"

text \<open>
  A match anchored at the start of the input: the groups' texts and the length of the
  whole match.
\<close>

definition re_match_at :: "regex \<Rightarrow> string \<Rightarrow> (string list \<times> nat) option" where
  "re_match_at re s =
     map_option (\<lambda>segs. (regroup re segs, length (concat segs))) (match_items (concat re) s)"

text \<open>\<open>pattern.search(s)\<close>, as a truth value: some position of \<open>s\<close> starts a match.\<close>

fun re_search :: "regex \<Rightarrow> string \<Rightarrow> bool" where
  "re_search re [] = (re_match_at re [] \<noteq> None)"
| "re_search re (x # xs) = (re_match_at re (x # xs) \<noteq> None \<or> re_search re xs)"

text \<open>
  \<open>pattern.sub(repl, s)\<close> with a function \<open>repl\<close> of the groups: the leftmost match is
  replaced and the scan goes on after it; a character that starts no match is copied.
\<close>

function re_sub :: "regex \<Rightarrow> (string list \<Rightarrow> string) \<Rightarrow> string \<Rightarrow> string" where
  "re_sub re repl [] = (case re_match_at re [] of Some (gs, n) \<Rightarrow> repl gs | None \<Rightarrow> [])"
| "re_sub re repl (x # xs) =
     (case re_match_at re (x # xs) of
        None \<Rightarrow> x # re_sub re repl xs
      | Some (gs, n) \<Rightarrow>
          if n = 0 then repl gs @ x # re_sub re repl xs
          else repl gs @ re_sub re repl (drop n (x # xs)))"
  by pat_completeness auto
termination
  by (relation "measure (\<lambda>(re, repl, s). length s)") auto

text \<open>What a successful match says about the text of each item.\<close>

fun seg_ok :: "re_item \<Rightarrow> string \<Rightarrow> bool" where
  "seg_ok (Lit l) t = (length t = length l \<and> ci_prefix l t)"
| "seg_ok (AnyOf cs) t = (case t of [x] \<Rightarrow> x \<in> set cs | _ \<Rightarrow> False)"
| "seg_ok (StarNoneOf cs) t = list_all (\<lambda>x. x \<notin> set cs) t"
| "seg_ok (PlusNoneOf cs) t = (t \<noteq> [] \<and> list_all (\<lambda>x. x \<notin> set cs) t)"

text \<open>
  The scan of \<open>pattern.sub\<close>, as a list of tokens: a copied character, or the groups of
  a match.  \<open>re_sub\<close> is the rendering of this list with each match replaced.
\<close>

function re_scan :: "regex \<Rightarrow> string \<Rightarrow> (char + string list) list" where
  "re_scan re [] = (case re_match_at re [] of Some (gs, n) \<Rightarrow> [Inr gs] | None \<Rightarrow> [])"
| "re_scan re (x # xs) =
     (case re_match_at re (x # xs) of
        None \<Rightarrow> Inl x # re_scan re xs
      | Some (gs, n) \<Rightarrow>
          if n = 0 then Inr gs # Inl x # re_scan re xs
          else Inr gs # re_scan re (drop n (x # xs)))"
  by pat_completeness auto
termination
  by (relation "measure (\<lambda>(re, s). length s)") auto

definition render :: "(string list \<Rightarrow> string) \<Rightarrow> (char + string list) list \<Rightarrow> string" where
  "render f ts = concat (map (case_sum (\<lambda>x. [x]) f) ts)"

definition tags :: "(char + string list) list \<Rightarrow> string list list" where
  "tags ts = concat (map (case_sum (\<lambda>x. []) (\<lambda>m. [m])) ts)"

section \<open>pathlib: pure paths (POSIX flavour, CPython 3.8 to 3.13)\<close>

text \<open>
  A path is the list of its \<open>parts\<close>, as \<open>PurePath.parts\<close> gives it; an absolute path
  has the anchor \<open>/\<close> as its first part.
\<close>

type_synonym path = "string list"

datatype error =
    ValueError
  | FileNotFoundError
  | FileExistsError
  | NotADirectoryError
  | IsADirectoryError
  | SameFileError

definition is_absolute :: "path \<Rightarrow> bool" where
  "is_absolute p = (case p of [] \<Rightarrow> False | a # _ \<Rightarrow> a = ''/'')"

text \<open>\<open>str(p)\<close>: the anchor, then the other parts joined by \<open>/\<close>; the empty path is \<open>.\<close>\<close>

definition str_path :: "path \<Rightarrow> string" where
  "str_path p =
     (case p of
        [] \<Rightarrow> ''.''
      | a # rest \<Rightarrow> if a = ''/'' then ''/'' @ str_join ''/'' rest else str_join ''/'' p)"

text \<open>
  \<open>p / q\<close>: the parts of the right operand are parsed again, which drops empty parts
  and \<open>.\<close> parts (but keeps \<open>..\<close>); an absolute right operand replaces the left one.
\<close>

definition joinpath :: "path \<Rightarrow> path \<Rightarrow> path" where
  "joinpath p q =
     (let q' = filter (\<lambda>x. x \<noteq> [] \<and> x \<noteq> ''.'') q
      in if is_absolute q' then q' else p @ q')"

text \<open>\<open>p.name\<close>: the last part, or the empty string when the path is only an anchor.\<close>

definition path_name :: "path \<Rightarrow> string" where
  "path_name p = (if p = [] \<or> p = [''/''] then [] else last p)"

text \<open>
  \<open>name.rfind('.')\<close>, as an index option: the position of the last dot.
\<close>

fun rfind_dot :: "string \<Rightarrow> nat option" where
  "rfind_dot [] = None"
| "rfind_dot (c # cs) =
     (case rfind_dot cs of
        Some i \<Rightarrow> Some (Suc i)
      | None \<Rightarrow> if c = CHR ''.'' then Some 0 else None)"

text \<open>
  \<open>p.suffix\<close>: \<open>name[i:]\<close> for the last dot \<open>i\<close> when \<open>0 < i < len(name) - 1\<close>, else
  the empty string.  A leading dot therefore starts no suffix.
\<close>

definition path_suffix :: "path \<Rightarrow> string" where
  "path_suffix p =
     (let name = path_name p in
      case rfind_dot name of
        None \<Rightarrow> []
      | Some i \<Rightarrow> if 0 < i \<and> i + 1 < length name then drop i name else [])"

text \<open>
  \<open>p.with_suffix(suffix)\<close>: \<open>ValueError\<close> for a suffix that holds a separator, that is
  not empty and does not start with a dot, or that is a lone dot, and for a path with
  an empty name; otherwise the old suffix of the name is replaced.
\<close>

definition with_suffix :: "path \<Rightarrow> string \<Rightarrow> error + path" where
  "with_suffix p suf =
     (if CHR ''/'' \<in> set suf then Inl ValueError
      else if (suf \<noteq> [] \<and> \<not> prefix ''.'' suf) \<or> suf = ''.'' then Inl ValueError
      else
        let name = path_name p in
        if name = [] then Inl ValueError
        else
          let old_suffix = path_suffix p;
              name' = (if old_suffix = [] then name @ suf
                       else take (length name - length old_suffix) name @ suf)
          in Inr (butlast p @ [name']))"

text \<open>
  \<open>p.relative_to(other)\<close>: the parts of \<open>p\<close> after those of \<open>other\<close>; \<open>ValueError\<close>
  when \<open>other\<close> is not a leading segment of \<open>p\<close>.
\<close>

definition relative_to :: "path \<Rightarrow> path \<Rightarrow> error + path" where
  "relative_to p other =
     (if (if other = [] then is_absolute p else \<not> prefix other p) then Inl ValueError
      else Inr (drop (length other) p))"

section \<open>The file system\<close>

text \<open>
  The file tree maps a resolved path to the node it names: a regular file with its
  text as stored, or a directory.  Symbolic links, permissions and encoding failures
  are outside the model.  The anchor \<open>/\<close> and the empty path (the working directory)
  always are directories.
\<close>

datatype node = File string | Dir

type_synonym filesystem = "path \<Rightarrow> node option"

definition node_at :: "filesystem \<Rightarrow> path \<Rightarrow> node option" where
  "node_at fs p = (if p = [] \<or> p = [''/''] then Some Dir else fs p)"

text \<open>\<open>p.parent\<close>: an anchor and the empty path are their own parents.\<close>

definition parent :: "path \<Rightarrow> path" where
  "parent p = (if p = [] \<or> p = [''/''] then p else butlast p)"

text \<open>
  The operating system walks a path part by part.  A part \<open>..\<close> needs the directory
  reached so far to exist and leads to its parent (the anchor is its own parent); above
  the working directory the model keeps the part as it stands.  Whether the other parts
  exist is for the operation to check.
\<close>

fun resolve_from :: "filesystem \<Rightarrow> path \<Rightarrow> path \<Rightarrow> error + path" where
  "resolve_from fs cur [] = Inr cur"
| "resolve_from fs cur (c # cs) =
     (if c \<noteq> ''..'' \<or> cur = [] \<or> last cur = ''..'' then resolve_from fs (cur @ [c]) cs
      else case node_at fs cur of
             None \<Rightarrow> Inl FileNotFoundError
           | Some (File _) \<Rightarrow> Inl NotADirectoryError
           | Some Dir \<Rightarrow> resolve_from fs (parent cur) cs)"

definition resolve :: "filesystem \<Rightarrow> path \<Rightarrow> error + path" where
  "resolve fs p = resolve_from fs [] p"

text \<open>\<open>p.exists()\<close> and \<open>p.is_dir()\<close>: false when the path cannot be walked.\<close>

definition fs_exists :: "filesystem \<Rightarrow> path \<Rightarrow> bool" where
  "fs_exists fs p = (case resolve fs p of Inl e \<Rightarrow> False | Inr q \<Rightarrow> node_at fs q \<noteq> None)"

definition is_dir :: "filesystem \<Rightarrow> path \<Rightarrow> bool" where
  "is_dir fs p = (case resolve fs p of Inl e \<Rightarrow> False | Inr q \<Rightarrow> node_at fs q = Some Dir)"

text \<open>\<open>os.mkdir(p)\<close>.\<close>

definition os_mkdir :: "filesystem \<Rightarrow> path \<Rightarrow> error + filesystem" where
  "os_mkdir fs p =
     (case resolve fs p of
        Inl e \<Rightarrow> Inl e
      | Inr q \<Rightarrow>
          if node_at fs q \<noteq> None then Inl FileExistsError
          else case node_at fs (parent q) of
                 None \<Rightarrow> Inl FileNotFoundError
               | Some (File _) \<Rightarrow> Inl NotADirectoryError
               | Some Dir \<Rightarrow> Inr (fs(q \<mapsto> Dir)))"

text \<open>
  \<open>p.mkdir(parents=True, exist_ok=True)\<close>, as pathlib writes it: try \<open>os.mkdir\<close>; on
  \<open>FileNotFoundError\<close> make the parent first and try again; any other error is
  swallowed when the path is a directory already.
\<close>

function mkdir_parents :: "filesystem \<Rightarrow> path \<Rightarrow> error + filesystem" where
  "mkdir_parents fs p =
     (case os_mkdir fs p of
        Inr fs' \<Rightarrow> Inr fs'
      | Inl e \<Rightarrow>
          if e = FileNotFoundError then
            (if parent p = p then Inl FileNotFoundError
             else case mkdir_parents fs (parent p) of
                    Inl e' \<Rightarrow> Inl e'
                  | Inr fs' \<Rightarrow>
                      (case os_mkdir fs' p of
                         Inr fs'' \<Rightarrow> Inr fs''
                       | Inl e'' \<Rightarrow>
                           if e'' \<noteq> FileNotFoundError \<and> is_dir fs' p then Inr fs'
                           else Inl e''))
          else if is_dir fs p then Inr fs
          else Inl e)"
  by pat_completeness auto
termination
  by (relation "measure (\<lambda>(fs, p). length p)") (auto simp: parent_def split: if_splits)

text \<open>
  Reading in text mode translates line endings (universal newlines): \<open>\r\n\<close> and a
  lone \<open>\r\<close> are read as \<open>\n\<close>.  Writing on POSIX leaves \<open>\n\<close> as it is.
\<close>

fun universal_newlines :: "string \<Rightarrow> string" where
  "universal_newlines [] = []"
| "universal_newlines [c] = (if c = carriage then [newline] else [c])"
| "universal_newlines (c # d # cs) =
     (if c = carriage \<and> d = newline then newline # universal_newlines cs
      else if c = carriage then newline # universal_newlines (d # cs)
      else c # universal_newlines (d # cs))"

text \<open>The stored text of a file, as copying reads it.\<close>

definition read_file :: "filesystem \<Rightarrow> path \<Rightarrow> error + string" where
  "read_file fs p =
     (case resolve fs p of
        Inl e \<Rightarrow> Inl e
      | Inr q \<Rightarrow>
          (case node_at fs q of
             None \<Rightarrow> Inl FileNotFoundError
           | Some Dir \<Rightarrow> Inl IsADirectoryError
           | Some (File c) \<Rightarrow> Inr c))"

text \<open>\<open>p.read_text(encoding='utf-8')\<close> and \<open>p.write_text(text, encoding='utf-8')\<close>.\<close>

definition read_text :: "filesystem \<Rightarrow> path \<Rightarrow> error + string" where
  "read_text fs p = map_sum id universal_newlines (read_file fs p)"

definition write_text :: "filesystem \<Rightarrow> path \<Rightarrow> string \<Rightarrow> error + filesystem" where
  "write_text fs p c =
     (case resolve fs p of
        Inl e \<Rightarrow> Inl e
      | Inr q \<Rightarrow>
          (case node_at fs q of
             Some Dir \<Rightarrow> Inl IsADirectoryError
           | Some (File _) \<Rightarrow> Inr (fs(q \<mapsto> File c))
           | None \<Rightarrow>
               (case node_at fs (parent q) of
                  None \<Rightarrow> Inl FileNotFoundError
                | Some (File _) \<Rightarrow> Inl NotADirectoryError
                | Some Dir \<Rightarrow> Inr (fs(q \<mapsto> File c)))))"

text \<open>\<open>os.path.samefile\<close>, as \<open>shutil\<close> uses it: both paths lead to the same existing node.\<close>

definition same_file :: "filesystem \<Rightarrow> path \<Rightarrow> path \<Rightarrow> bool" where
  "same_file fs p q =
     (case resolve fs p of
        Inl e \<Rightarrow> False
      | Inr p' \<Rightarrow> node_at fs p' \<noteq> None \<and> resolve fs q = Inr p')"

text \<open>
  \<open>shutil.copy2(src, dst)\<close>: a destination that is a directory receives the file under
  the source's name; copying a file onto itself is refused; the source is opened first,
  and its stored text is copied as it is.
\<close>

definition copy2 :: "filesystem \<Rightarrow> path \<Rightarrow> path \<Rightarrow> error + filesystem" where
  "copy2 fs src dst =
     (let dst' = (if is_dir fs dst then joinpath dst [path_name src] else dst) in
      if same_file fs src dst' then Inl SameFileError
      else case read_file fs src of
             Inl e \<Rightarrow> Inl e
           | Inr c \<Rightarrow> write_text fs dst' c)"

text \<open>
  \<open>(d).rglob('*.html')\<close>.  The order in which a directory walk yields the entries is
  the operating system's, so the walk is a parameter: \<open>listing\<close> enumerates paths, and
  the result keeps those that name an existing entry strictly below \<open>d\<close> whose name
  matches \<open>*.html\<close>.  A directory entry's name is never empty, \<open>.\<close> or \<open>..\<close>, and holds
  no separator.
\<close>

definition valid_name :: "string \<Rightarrow> bool" where
  "valid_name n = (n \<noteq> [] \<and> n \<noteq> ''.'' \<and> n \<noteq> ''..'' \<and> CHR ''/'' \<notin> set n)"

definition rglob_html :: "filesystem \<Rightarrow> path list \<Rightarrow> path \<Rightarrow> path list" where
  "rglob_html fs listing d =
     filter (\<lambda>p. strict_prefix d p \<and> list_all valid_name (drop (length d) p)
                 \<and> fs_exists fs p \<and> suffix ''.html'' (last p)) listing"

section \<open>scripts/generate\_clean\_pages.py\<close>

definition EXCLUDE_DIRS :: "string list" where
  "EXCLUDE_DIRS = [''assets'', ''.git'']"

definition HTML_EXT :: string where
  "HTML_EXT = ''.html''"

text \<open>
  \<open>CANONICAL_RE\<close>, three groups: the tag up to the opening quote of its \<open>href\<close>, the
  value, and the closing quote with the rest of the tag.
\<close>

definition quote_chars :: "char list" where
  "quote_chars = [dquote, squote]"

definition CANONICAL_RE :: regex where
  "CANONICAL_RE =
     [[Lit ''<link'', StarNoneOf ''>'', Lit ''rel='', AnyOf quote_chars, Lit ''canonical'',
       AnyOf quote_chars, StarNoneOf ''>'', Lit ''href='', AnyOf quote_chars],
      [PlusNoneOf quote_chars],
      [AnyOf quote_chars, StarNoneOf ''>'', Lit ''>'']]"

text \<open>\<open>find_page_files(root)\<close>; \<open>f.parts\<close> are all parts of the path, the root's too.\<close>

definition find_page_files :: "filesystem \<Rightarrow> path list \<Rightarrow> path \<Rightarrow> path list" where
  "find_page_files fs listing root =
     (if \<not> fs_exists fs (joinpath root [''pages'']) then []
      else filter (\<lambda>f. \<not> list_ex (\<lambda>p. p \<in> set EXCLUDE_DIRS) f)
             (rglob_html fs listing (joinpath root [''pages''])))"

definition ensure_dir :: "filesystem \<Rightarrow> path \<Rightarrow> error + filesystem" where
  "ensure_dir fs p = mkdir_parents fs p"

definition canonical_tag :: "string \<Rightarrow> string" where
  "canonical_tag canonical_url =
     ''  <link rel='' @ [dquote] @ ''canonical'' @ [dquote] @ '' href='' @ [dquote]
       @ canonical_url @ [dquote] @ ''>'' @ [newline]"

definition add_canonical_to_html :: "string \<Rightarrow> string \<Rightarrow> string \<times> bool" where
  "add_canonical_to_html content canonical_url =
     (if re_search CANONICAL_RE content then
        let new_content = re_sub CANONICAL_RE (\<lambda>m. m ! 0 @ canonical_url @ m ! 2) content
        in (new_content, new_content \<noteq> content)
      else
        let insert = canonical_tag canonical_url in
        if str_contains ''</head>'' content
        then (str_replace ''</head>'' (insert @ ''</head>'') content, True)
        else (insert @ content, True))"

definition refresh_tag :: "string \<Rightarrow> int \<Rightarrow> string" where
  "refresh_tag target_url seconds =
     ''<meta http-equiv='' @ [dquote] @ ''refresh'' @ [dquote] @ '' content='' @ [dquote]
       @ str_int seconds @ ''; url='' @ target_url @ [dquote] @ ''>'' @ [newline]"

definition add_meta_refresh :: "string \<Rightarrow> string \<Rightarrow> int \<Rightarrow> string \<times> bool" where
  "add_meta_refresh content target_url seconds =
     (let meta = refresh_tag target_url seconds in
      if str_contains meta content then (content, False)
      else if str_contains ''</head>'' content
        then (str_replace ''</head>'' (''  '' @ meta @ ''</head>'') content, True)
        else (meta @ content, True))"

definition write_backup :: "filesystem \<Rightarrow> path \<Rightarrow> error + (filesystem \<times> path)" where
  "write_backup fs p =
     (case with_suffix p (path_suffix p @ ''.bak'') of
        Inl e \<Rightarrow> Inl e
      | Inr bak \<Rightarrow> (case copy2 fs p bak of Inl e \<Rightarrow> Inl e | Inr fs' \<Rightarrow> Inr (fs', bak)))"

text \<open>The arguments of \<open>run\<close>, and what a run changes: the file tree, its two lists and
  the lines it prints.\<close>

record config =
  dry_run :: bool
  apply_flag :: bool
  canonical_old :: bool
  redirect_old :: bool
  redirect_type :: string
  domain :: string
  force :: bool

record run_state =
  fs :: filesystem
  created :: "path list"
  modified :: "path list"
  printed :: "string list"

definition print :: "run_state \<Rightarrow> string \<Rightarrow> run_state" where
  "print st line = st\<lparr>printed := printed st @ [line]\<rparr>"

text \<open>
  Lines 101 to 109 of \<open>run\<close>: the page's path relative to the pages directory without
  its suffix, the target directory, the target index file and the clean URL.
\<close>

definition map_path :: "config \<Rightarrow> path \<Rightarrow> path \<Rightarrow> error + (path \<times> path \<times> path \<times> string)" where
  "map_path cfg root f =
     (case relative_to f (joinpath root [''pages'']) of
        Inl e \<Rightarrow> Inl e
      | Inr rel \<Rightarrow>
          (case with_suffix rel [] of
             Inl e \<Rightarrow> Inl e
           | Inr stripped \<Rightarrow>
               let target_dir = joinpath root stripped;
                   target_index = joinpath target_dir [''index.html''];
                   clean_url = rstrip (domain cfg) ''/'' @ ''/''
                                 @ str_replace [backslash] ''/'' (str_path stripped)
               in if str_path stripped = ''index''
                  then Inr (stripped, root, joinpath root [''index.html''],
                            rstrip (domain cfg) ''/'' @ ''/'')
                  else Inr (stripped, target_dir, target_index, clean_url)))"

text \<open>
  Lines 115 to 130: the clean copy.  An exception leaves the file tree as it was when
  it was raised, so a failure carries the state reached.
\<close>

definition create_clean ::
  "config \<Rightarrow> run_state \<Rightarrow> path \<Rightarrow> path \<Rightarrow> path \<Rightarrow> string \<Rightarrow> (error \<times> run_state) + run_state" where
  "create_clean cfg st f target_dir target_index clean_url =
     (if fs_exists (fs st) target_index \<and> \<not> force cfg then
        Inr (print st (''Skipping existing target '' @ str_path target_index
                        @ ''; use --force to overwrite''))
      else
        case ensure_dir (fs st) target_dir of
          Inl e \<Rightarrow> Inl (e, st)
        | Inr fs1 \<Rightarrow>
            (case read_text fs1 f of
               Inl e \<Rightarrow> Inl (e, st\<lparr>fs := fs1\<rparr>)
             | Inr content \<Rightarrow>
                 let (new_content, changed_canon) = add_canonical_to_html content clean_url in
                 (case (if fs_exists fs1 target_index \<and> force cfg
                        then map_sum id fst (write_backup fs1 target_index)
                        else Inr fs1) of
                    Inl e \<Rightarrow> Inl (e, st\<lparr>fs := fs1\<rparr>)
                  | Inr fs2 \<Rightarrow>
                      (case write_text fs2 target_index new_content of
                         Inl e \<Rightarrow> Inl (e, st\<lparr>fs := fs2\<rparr>)
                       | Inr fs3 \<Rightarrow>
                           Inr (print (st\<lparr>fs := fs3, created := created st @ [target_index]\<rparr>)
                                  (''Created '' @ str_path target_index))))))"

text \<open>
  Lines 133 to 147: the legacy page.  First the new text of the page and whether any
  injection changed it (lines 135 to 142), then the backup and the write.  The target of
  the redirect is the second argument of \<open>add_meta_refresh\<close> in line 141.
\<close>

definition redirect_target :: "path \<Rightarrow> string" where
  "redirect_target stripped = ''/'' @ str_replace [backslash] ''/'' (str_path stripped)"

definition legacy_content :: "config \<Rightarrow> string \<Rightarrow> path \<Rightarrow> string \<Rightarrow> string \<times> bool" where
  "legacy_content cfg orig_content stripped clean_url =
     (let (new1, changed1) =
            (if canonical_old cfg then add_canonical_to_html orig_content clean_url
             else (orig_content, False));
          (new_orig, changed2) =
            (if redirect_old cfg \<and> redirect_type cfg = ''meta''
             then add_meta_refresh new1 (redirect_target stripped) 0
             else (new1, False))
      in (new_orig, changed1 \<or> changed2))"

definition update_legacy ::
  "config \<Rightarrow> run_state \<Rightarrow> path \<Rightarrow> path \<Rightarrow> string \<Rightarrow> (error \<times> run_state) + run_state" where
  "update_legacy cfg st f stripped clean_url =
     (if canonical_old cfg \<or> redirect_old cfg then
        case read_text (fs st) f of
          Inl e \<Rightarrow> Inl (e, st)
        | Inr orig_content \<Rightarrow>
            let (new_orig, changed_any) = legacy_content cfg orig_content stripped clean_url
            in if changed_any then
                 (case write_backup (fs st) f of
                    Inl e \<Rightarrow> Inl (e, st)
                  | Inr (fs1, bak) \<Rightarrow>
                      (case write_text fs1 f new_orig of
                         Inl e \<Rightarrow> Inl (e, st\<lparr>fs := fs1\<rparr>)
                       | Inr fs2 \<Rightarrow>
                           Inr (print (st\<lparr>fs := fs2, modified := modified st @ [f]\<rparr>)
                                  (''Updated legacy file '' @ str_path f
                                     @ '' (canonical/redirect added)''))))
               else Inr st
      else Inr st)"

text \<open>The body of the loop of \<open>run\<close>, for one page file.\<close>

definition process_file ::
  "config \<Rightarrow> path \<Rightarrow> run_state \<Rightarrow> path \<Rightarrow> (error \<times> run_state) + run_state" where
  "process_file cfg root st f =
     (case map_path cfg root f of
        Inl e \<Rightarrow> Inl (e, st)
      | Inr (stripped, target_dir, target_index, clean_url) \<Rightarrow>
          if dry_run cfg then
            Inr (print st (''[DRY] Will create: '' @ str_path target_index @ ''  (from ''
                            @ str_path f @ '')  canonical: '' @ clean_url))
          else
            (case create_clean cfg st f target_dir target_index clean_url of
               Inl r \<Rightarrow> Inl r
             | Inr st1 \<Rightarrow> update_legacy cfg st1 f stripped clean_url))"

fun run_loop ::
  "config \<Rightarrow> path \<Rightarrow> run_state \<Rightarrow> path list \<Rightarrow> (error \<times> run_state) + run_state" where
  "run_loop cfg root st [] = Inr st"
| "run_loop cfg root st (f # files) =
     (case process_file cfg root st f of
        Inl r \<Rightarrow> Inl r
      | Inr st' \<Rightarrow> run_loop cfg root st' files)"

text \<open>
  \<open>run\<close>: \<open>root\<close> is the module's \<open>ROOT\<close>, \<open>fs0\<close> the file tree the run starts on and
  \<open>listing\<close> the directory walk.
\<close>

definition run ::
  "config \<Rightarrow> path \<Rightarrow> filesystem \<Rightarrow> path list \<Rightarrow> (error \<times> run_state) + run_state" where
  "run cfg root fs0 listing =
     (let files = find_page_files fs0 listing root;
          st0 = \<lparr>fs = fs0, created = [], modified = [], printed = []\<rparr>
      in case run_loop cfg root st0 files of
           Inl r \<Rightarrow> Inl r
         | Inr st \<Rightarrow>
             Inr (print st (''Done. Created '' @ str_nat (length (created st)) @ '' pages, modified ''
                             @ str_nat (length (modified st)) @ '' legacy files.'')))"

section \<open>Notions of the specification, and a sample site\<close>

text \<open>The defaults of the command line: a dry run for \<open>https://gotoolly.com\<close>.\<close>

definition default_config :: config where
  "default_config =
     \<lparr>dry_run = True, apply_flag = False, canonical_old = False, redirect_old = False,
      redirect_type = ''meta'', domain = ''https://gotoolly.com'', force = False\<rparr>"

text \<open>
  The clean target as the specification words it, for a page path \<open>p\<close> relative to the
  pages root: \<open>dirname(p)/basename(p without .html)/index.html\<close> under the site root.
\<close>

definition spec_clean_target :: "path \<Rightarrow> path \<Rightarrow> path" where
  "spec_clean_target root p =
     joinpath (joinpath (joinpath root (butlast p))
                 [take (length (last p) - length HTML_EXT) (last p)])
       [''index.html'']"




text \<open>The name a page's file name leaves after \<open>with_suffix('')\<close>, from its stem.\<close>

definition stripped_name :: "string \<Rightarrow> string" where
  "stripped_name stem = (if stem = [] then ''.html'' else stem)"

text \<open>A small site, for the concrete instances below.\<close>

definition demo_root :: path where
  "demo_root = [''/'', ''srv'', ''site'']"

definition demo_page :: string where
  "demo_page = ''<head></head><p>hi</p>''"

definition demo_fs :: filesystem where
  "demo_fs = map_of
     [([''/'', ''srv''], Dir),
      ([''/'', ''srv'', ''site''], Dir),
      ([''/'', ''srv'', ''site'', ''index.html''], File ''old home''),
      ([''/'', ''srv'', ''site'', ''pages''], Dir),
      ([''/'', ''srv'', ''site'', ''pages'', ''index.html''], File demo_page),
      ([''/'', ''srv'', ''site'', ''pages'', ''.html''], File demo_page),
      ([''/'', ''srv'', ''site'', ''pages'', ''...html''], File demo_page),
      ([''/'', ''srv'', ''site'', ''pages'', ''guides''], Dir),
      ([''/'', ''srv'', ''site'', ''pages'', ''guides'', ''seo.html''], File demo_page)]"

definition demo_listing :: "path list" where
  "demo_listing =
     [[''/'', ''srv'', ''site'', ''pages'', ''guides'', ''seo.html''],
      [''/'', ''srv'', ''site'', ''pages'', ''index.html'']]"




text \<open>The sample page with the refresh tag for \<open>/index\<close>.\<close>

definition demo_redirect_page :: string where
  "demo_redirect_page =
     ''<head>  <meta http-equiv='' @ [dquote] @ ''refresh'' @ [dquote] @ '' content='' @ [dquote]
       @ ''0; url=/index'' @ [dquote] @ ''>'' @ [newline] @ ''</head><p>hi</p>''"

text \<open>
  The groups of a match of \<open>CANONICAL_RE\<close>: the tag from \<open><link\<close> up to the opening
  quote of its \<open>href\<close>, the value (not empty, no quote in it), and the closing quote with
  the rest of the tag up to \<open>>\<close>.
\<close>

definition canon_tag_ok :: "string list \<Rightarrow> bool" where
  "canon_tag_ok m =
     (length m = 3
      \<and> ci_prefix ''<link'' (m ! 0) \<and> m ! 0 \<noteq> [] \<and> last (m ! 0) \<in> set quote_chars
      \<and> m ! 1 \<noteq> [] \<and> list_all (\<lambda>x. x \<notin> set quote_chars) (m ! 1)
      \<and> m ! 2 \<noteq> [] \<and> hd (m ! 2) \<in> set quote_chars \<and> last (m ! 2) = CHR ''>'')"

text \<open>A document with a canonical tag, and the groups of the tag.\<close>

definition demo_tagged :: string where
  "demo_tagged = ''<link rel='' @ [dquote] @ ''canonical'' @ [dquote] @ '' id=c href=''
                   @ [squote] @ ''/old'' @ [squote] @ '' >.''"

definition demo_tag :: "string list" where
  "demo_tag = [''<link rel='' @ [dquote] @ ''canonical'' @ [dquote] @ '' id=c href='' @ [squote],
               ''/old'', [squote] @ '' >'']"

text \<open>Three small sites on which the run does not do what the specification says.\<close>

definition cx_root :: path where
  "cx_root = [''/'', ''s'']"


definition cx_legacy_fs :: filesystem where
  "cx_legacy_fs = map_of
     [([''/'', ''s''], Dir),
      ([''/'', ''s'', ''pages''], Dir),
      ([''/'', ''s'', ''pages'', ''pages.html''], File ''a''),
      ([''/'', ''s'', ''pages'', ''index.html''], File ''b'')]"



section \<open>Properties of the file system\<close>

text \<open>A path without \<open>..\<close> parts names its node as it stands.\<close>

lemma resolve_from_plain: "''..'' \<notin> set p \<Longrightarrow> resolve_from t cur p = Inr (cur @ p)"
  by (induction p arbitrary: cur) auto

lemma resolve_plain: "''..'' \<notin> set p \<Longrightarrow> resolve t p = Inr p"
  by (simp add: resolve_def resolve_from_plain)

lemma fs_exists_plain: "''..'' \<notin> set p \<Longrightarrow> fs_exists t p = (node_at t p \<noteq> None)"
  by (simp add: fs_exists_def resolve_plain)

lemma is_dir_plain: "''..'' \<notin> set p \<Longrightarrow> is_dir t p = (node_at t p = Some Dir)"
  by (simp add: is_dir_def resolve_plain)

section \<open>Properties of the path mapper\<close>

lemma joinpath_single:
  "n \<noteq> [] \<Longrightarrow> n \<noteq> ''.'' \<Longrightarrow> n \<noteq> ''/'' \<Longrightarrow> joinpath p [n] = p @ [n]"
  by (simp add: joinpath_def is_absolute_def)

lemma joinpath_pages [simp]: "joinpath root [''pages''] = root @ [''pages'']"
  by (simp add: joinpath_single)

lemma joinpath_index [simp]: "joinpath p [''index.html''] = p @ [''index.html'']"
  by (simp add: joinpath_single)

lemma rfind_dot_html: "rfind_dot (xs @ ''.html'') = Some (length xs)"
  by (induction xs) auto


lemma path_name_snoc: "n \<noteq> ''/'' \<Longrightarrow> path_name (ds @ [n]) = n"
  by (auto simp: path_name_def)

lemma path_suffix_html:
  "path_suffix (ds @ [stem @ ''.html'']) = (if stem = [] then [] else ''.html'')"
  by (simp add: path_suffix_def path_name_snoc rfind_dot_html)

lemma with_suffix_html:
  "with_suffix (ds @ [stem @ ''.html'']) [] = Inr (ds @ [if stem = [] then ''.html'' else stem])"
  by (simp add: with_suffix_def path_suffix_html path_name_snoc)

lemma relative_to_pages: "relative_to (root @ ''pages'' # rel) (root @ [''pages'']) = Inr rel"
  by (simp add: relative_to_def)

lemma valid_name_stem:
  "valid_name (stem @ ''.html'') \<Longrightarrow> CHR ''/'' \<notin> set stem"
  by (simp add: valid_name_def)

lemma str_join_has_sep: "ps \<noteq> [] \<Longrightarrow> CHR ''/'' \<in> set (str_join ''/'' (p # ps))"
  by (cases ps) auto

lemma str_path_index_iff:
  assumes "list_all valid_name ds" and "CHR ''/'' \<notin> set s"
  shows "str_path (ds @ [s]) = ''index'' \<longleftrightarrow> ds = [] \<and> s = ''index''"
proof (cases ds)
  case Nil
  with assms show ?thesis by (auto simp: str_path_def)
next
  case (Cons d ds')
  with assms have "d \<noteq> ''/''" by (auto simp: valid_name_def)
  moreover have "CHR ''/'' \<in> set (str_join ''/'' (d # ds' @ [s]))"
    by (rule str_join_has_sep) simp
  then have "str_join ''/'' (d # ds' @ [s]) \<noteq> ''index''" by auto
  ultimately show ?thesis using Cons by (simp add: str_path_def)
qed

lemma rglob_htmlD:
  assumes "f \<in> set (rglob_html tree listing d)"
  shows "\<exists>ds stem. f = d @ ds @ [stem @ ''.html''] \<and> list_all valid_name ds
           \<and> valid_name (stem @ ''.html'') \<and> fs_exists tree f"
proof -
  from assms have sp: "strict_prefix d f" and va: "list_all valid_name (drop (length d) f)"
    and ex: "fs_exists tree f" and su: "suffix ''.html'' (last f)"
    by (auto simp: rglob_html_def)
  from sp obtain rest where f: "f = d @ rest" and ne: "rest \<noteq> []"
    by (auto simp: strict_prefix_def prefix_def)
  from ne obtain ds n where rest: "rest = ds @ [n]"
    by (cases rest rule: rev_cases) auto
  from su f rest obtain stem where n: "n = stem @ ''.html''"
    by (auto simp: suffix_def)
  from va f rest n have "list_all valid_name ds" "valid_name (stem @ ''.html'')" by auto
  with f rest n ex show ?thesis by auto
qed

lemma find_page_filesD:
  assumes "f \<in> set (find_page_files tree listing root)"
  shows "\<exists>ds stem. f = root @ ''pages'' # ds @ [stem @ ''.html''] \<and> list_all valid_name ds
           \<and> valid_name (stem @ ''.html'') \<and> fs_exists tree f"
proof -
  from assms have "f \<in> set (rglob_html tree listing (root @ [''pages'']))"
    by (auto simp: find_page_files_def split: if_splits)
  from rglob_htmlD[OF this] show ?thesis by auto
qed

text \<open>The path mapper on a page file, in closed form.\<close>

lemma map_path_page:
  assumes "list_all valid_name ds" and "valid_name (stem @ ''.html'')"
  shows "map_path cfg root (root @ ''pages'' # ds @ [stem @ ''.html'']) =
           (if ds = [] \<and> stem = ''index''
            then Inr ([''index''], root, root @ [''index.html''], rstrip (domain cfg) ''/'' @ ''/'')
            else Inr (ds @ [stripped_name stem],
                      joinpath root (ds @ [stripped_name stem]),
                      joinpath root (ds @ [stripped_name stem]) @ [''index.html''],
                      rstrip (domain cfg) ''/'' @ ''/''
                        @ str_replace [backslash] ''/'' (str_path (ds @ [stripped_name stem]))))"
proof -
  have "CHR ''/'' \<notin> set (stripped_name stem)"
    using assms(2) by (auto simp: stripped_name_def valid_name_def)
  from str_path_index_iff[OF assms(1) this]
  have "str_path (ds @ [stripped_name stem]) = ''index'' \<longleftrightarrow> ds = [] \<and> stem = ''index''"
    by (auto simp: stripped_name_def)
  then show ?thesis
    by (simp add: map_path_def relative_to_pages with_suffix_html stripped_name_def Let_def
             del: str_replace.simps)
qed

lemma joinpath_valid:
  assumes "list_all valid_name ds" and "CHR ''/'' \<notin> set s"
  shows "joinpath p (ds @ [s]) = p @ ds @ (if s = [] \<or> s = ''.'' then [] else [s])"
proof -
  have f: "filter (\<lambda>x. x \<noteq> [] \<and> x \<noteq> ''.'') ds = ds"
    using assms(1) by (induction ds) (auto simp: valid_name_def)
  have "\<not> is_absolute (ds @ (if s = [] \<or> s = ''.'' then [] else [s]))"
    using assms by (cases ds) (auto simp: is_absolute_def valid_name_def)
  then show ?thesis by (auto simp: joinpath_def f)
qed

lemma joinpath_valid_dirs:
  assumes "list_all valid_name ds"
  shows "joinpath p ds = p @ ds"
proof -
  have f: "filter (\<lambda>x. x \<noteq> [] \<and> x \<noteq> ''.'') ds = ds"
    using assms by (induction ds) (auto simp: valid_name_def)
  have "\<not> is_absolute ds"
    using assms by (cases ds) (auto simp: is_absolute_def valid_name_def)
  then show ?thesis by (auto simp: joinpath_def f)
qed

text \<open>
  Claim C1, as amended.  For every discovered page file whose name has a non-empty stem
  before \<open>.html\<close> and whose path \<open>p\<close> relative to the pages root is not the root-level
  \<open>index.html\<close>, the path mapper succeeds and the clean target it computes is
  \<open>dirname(p)/basename(p without .html)/index.html\<close> under the site root.
\<close>

theorem clean_target_of_page:
  assumes "f \<in> set (find_page_files tree listing root)"
    and "last f \<noteq> ''.html''"
    and "drop (length (root @ [''pages''])) f \<noteq> [''index.html'']"
  shows "\<exists>stripped target_dir url.
           map_path cfg root f =
             Inr (stripped, target_dir,
                  spec_clean_target root (drop (length (root @ [''pages''])) f), url)"
proof -
  from find_page_filesD[OF assms(1)] obtain ds stem where
    f: "f = root @ ''pages'' # ds @ [stem @ ''.html'']" and ds: "list_all valid_name ds"
    and n: "valid_name (stem @ ''.html'')" by blast
  from assms(2) f have stem: "stem \<noteq> []" by auto
  from assms(3) f have ni: "\<not> (ds = [] \<and> stem = ''index'')" by auto
  have sl: "CHR ''/'' \<notin> set stem" using n by (simp add: valid_name_def)
  have rel: "drop (length (root @ [''pages''])) f = ds @ [stem @ ''.html'']"
    using f by simp
  have "spec_clean_target root (ds @ [stem @ ''.html'']) =
          joinpath root (ds @ [stem]) @ [''index.html'']"
    by (simp add: spec_clean_target_def HTML_EXT_def joinpath_valid_dirs[OF ds]
          joinpath_valid[OF ds sl] joinpath_valid[of "[]", simplified, OF sl])
  then show ?thesis
    unfolding rel using ni stem
    by (auto simp: f map_path_page[OF ds n] stripped_name_def)
qed

lemma demo_find:
  "find_page_files demo_fs
     [[''/'', ''srv'', ''site'', ''pages'', ''guides'', ''seo.html'']] demo_root
   = [[''/'', ''srv'', ''site'', ''pages'', ''guides'', ''seo.html'']]"
  by (simp add: find_page_files_def rglob_html_def demo_fs_def demo_root_def fs_exists_plain
        node_at_def valid_name_def EXCLUDE_DIRS_def suffix_def strict_prefix_def)

text \<open>
  An instance of C1: \<open>pages/guides/seo.html\<close> of the sample site maps to
  \<open>guides/seo/index.html\<close>.
\<close>

theorem clean_target_of_page_witness:
  "\<exists>stripped target_dir url.
     map_path default_config demo_root [''/'', ''srv'', ''site'', ''pages'', ''guides'', ''seo.html'']
       = Inr (stripped, target_dir, [''/'', ''srv'', ''site'', ''guides'', ''seo'', ''index.html''], url)"
proof -
  have a: "[''/'', ''srv'', ''site'', ''pages'', ''guides'', ''seo.html'']
             \<in> set (find_page_files demo_fs
                  [[''/'', ''srv'', ''site'', ''pages'', ''guides'', ''seo.html'']] demo_root)"
    by (simp add: demo_find)
  have b: "spec_clean_target demo_root [''guides'', ''seo.html'']
             = [''/'', ''srv'', ''site'', ''guides'', ''seo'', ''index.html'']"
    by (simp add: spec_clean_target_def demo_root_def joinpath_def is_absolute_def HTML_EXT_def)
  show ?thesis
    using clean_target_of_page[OF a, of default_config] b
    by (simp add: demo_root_def)
qed

text \<open>
  Claim C1 as stated fails for the page file named \<open>.html\<close>: \<open>rglob('*.html')\<close> finds it,
  pathlib gives a name that starts with its only dot no suffix, so \<open>with_suffix('')\<close>
  strips nothing and the target is \<open>.html/index.html\<close>, not \<open>index.html\<close> in the
  directory of the page.
\<close>

theorem clean_target_dotfile_counterexample:
  "find_page_files demo_fs [[''/'', ''srv'', ''site'', ''pages'', ''.html'']] demo_root
     = [[''/'', ''srv'', ''site'', ''pages'', ''.html'']]
   \<and> map_path default_config demo_root [''/'', ''srv'', ''site'', ''pages'', ''.html'']
     = Inr ([''.html''], [''/'', ''srv'', ''site'', ''.html''],
            [''/'', ''srv'', ''site'', ''.html'', ''index.html''], ''https://gotoolly.com/.html'')
   \<and> spec_clean_target demo_root [''.html''] = [''/'', ''srv'', ''site'', ''index.html'']
   \<and> [''/'', ''srv'', ''site'', ''.html'', ''index.html''] \<noteq> spec_clean_target demo_root [''.html'']"
  by (simp add: find_page_files_def rglob_html_def demo_fs_def demo_root_def fs_exists_plain
        node_at_def valid_name_def EXCLUDE_DIRS_def suffix_def strict_prefix_def
        map_path_def relative_to_def with_suffix_def path_name_def path_suffix_def
        joinpath_def is_absolute_def str_path_def default_config_def rstrip_def
        spec_clean_target_def HTML_EXT_def)

text \<open>
  Claim C2.  The file \<open>index.html\<close> at the pages root maps to the site root: the target
  directory is the root itself, the clean target is the top-level \<open>index.html\<close>, and the
  canonical URL is the domain without its trailing slashes, followed by one slash.
\<close>

theorem root_index_maps_to_site_root:
  "map_path cfg root (root @ [''pages'', ''index.html'']) =
     Inr ([''index''], root, joinpath root [''index.html''], rstrip (domain cfg) ''/'' @ ''/'')
   \<and> joinpath root [''index.html''] = root @ [''index.html'']"
  using map_path_page[of "[]" "''index''" cfg root]
  by (simp add: valid_name_def)





text \<open>
  An instance of C2 on the sample site with the default domain.
\<close>

theorem root_index_maps_to_site_root_witness:
  "map_path default_config demo_root [''/'', ''srv'', ''site'', ''pages'', ''index.html''] =
     Inr ([''index''], demo_root, [''/'', ''srv'', ''site'', ''index.html''], ''https://gotoolly.com/'')"
  using root_index_maps_to_site_root[of default_config demo_root]
  by (simp add: demo_root_def default_config_def rstrip_def)



section \<open>Properties of a run\<close>

subsection \<open>Dry runs\<close>

lemma map_path_discovered:
  assumes "f \<in> set (find_page_files tree listing root)"
  shows "\<exists>r. map_path cfg root f = Inr r"
proof -
  from find_page_filesD[OF assms] obtain ds stem where
    f: "f = root @ ''pages'' # ds @ [stem @ ''.html'']" and ds: "list_all valid_name ds"
    and n: "valid_name (stem @ ''.html'')" by blast
  show ?thesis unfolding f map_path_page[OF ds n] by auto
qed

lemma process_file_dry:
  assumes "dry_run cfg" and "map_path cfg root f = Inr r"
  shows "\<exists>st'. process_file cfg root st f = Inr st' \<and> fs st' = fs st
           \<and> created st' = created st \<and> modified st' = modified st"
  using assms by (cases r) (auto simp: process_file_def print_def)

lemma run_loop_dry:
  assumes "dry_run cfg" and "\<forall>f \<in> set files. \<exists>r. map_path cfg root f = Inr r"
  shows "\<exists>st'. run_loop cfg root st files = Inr st' \<and> fs st' = fs st
           \<and> created st' = created st \<and> modified st' = modified st"
  using assms(2)
proof (induction files arbitrary: st)
  case Nil
  show ?case by simp
next
  case (Cons f files)
  from Cons.prems obtain r where r: "map_path cfg root f = Inr r" by auto
  from process_file_dry[OF assms(1) r, of st] obtain st1 where
    s1: "process_file cfg root st f = Inr st1" "fs st1 = fs st"
        "created st1 = created st" "modified st1 = modified st" by blast
  from Cons.IH[of st1] Cons.prems obtain st2 where
    "run_loop cfg root st1 files = Inr st2" "fs st2 = fs st1"
    "created st2 = created st1" "modified st2 = modified st1" by auto
  with s1 show ?case by simp
qed

text \<open>
  Claim C3.  In dry-run mode, whatever the other arguments are, a run ends normally and
  the file tree after it is the file tree before it; nothing is recorded as created or
  modified.
\<close>

theorem dry_run_writes_nothing:
  assumes "dry_run cfg"
  shows "\<exists>st. run cfg root tree listing = Inr st \<and> fs st = tree
           \<and> created st = [] \<and> modified st = []"
proof -
  have "\<forall>f \<in> set (find_page_files tree listing root). \<exists>r. map_path cfg root f = Inr r"
    using map_path_discovered by blast
  from run_loop_dry[OF assms this,
      of "\<lparr>fs = tree, created = [], modified = [], printed = []\<rparr>"]
  show ?thesis by (auto simp: run_def Let_def print_def)
qed

text \<open>
  An instance of C3: a dry run over the sample site with \<open>--canonical-old\<close>,
  \<open>--redirect-old\<close>, \<open>--force\<close> and another domain.
\<close>

theorem dry_run_writes_nothing_witness:
  "\<exists>st. run \<lparr>dry_run = True, apply_flag = False, canonical_old = True, redirect_old = True,
              redirect_type = ''meta'', domain = ''https://example.com'', force = True\<rparr>
            demo_root demo_fs demo_listing = Inr st
        \<and> fs st = demo_fs \<and> created st = [] \<and> modified st = []"
  using dry_run_writes_nothing[of "\<lparr>dry_run = True, apply_flag = False, canonical_old = True,
          redirect_old = True, redirect_type = ''meta'', domain = ''https://example.com'',
          force = True\<rparr>" demo_root demo_fs demo_listing]
  by simp

section \<open>Properties of the tag injectors\<close>

subsection \<open>Substrings and replacement\<close>

lemma re_match_at_no_lt:
  "\<not> ci_eq CHR ''<'' x \<Longrightarrow> re_match_at CANONICAL_RE (x # xs) = None"
  by (simp add: re_match_at_def CANONICAL_RE_def)


lemma demo_redirect: "add_meta_refresh demo_page ''/index'' 0 = (demo_redirect_page, True)"
  by (simp add: add_meta_refresh_def refresh_tag_def str_int_def digit_char_def demo_page_def
        demo_redirect_page_def Let_def)



lemma str_contains_iff: "str_contains sub s \<longleftrightarrow> (\<exists>a b. s = a @ sub @ b)"
proof (induction s)
  case Nil
  show ?case by auto
next
  case (Cons x xs)
  show ?case
  proof
    assume "str_contains sub (x # xs)"
    then consider "prefix sub (x # xs)" | "str_contains sub xs" by auto
    then show "\<exists>a b. x # xs = a @ sub @ b"
    proof cases
      case 1
      then obtain b where "x # xs = sub @ b" by (auto simp: prefix_def)
      then have "x # xs = [] @ sub @ b" by simp
      then show ?thesis by blast
    next
      case 2
      with Cons.IH obtain a b where "xs = a @ sub @ b" by blast
      then have "x # xs = (x # a) @ sub @ b" by simp
      then show ?thesis by blast
    qed
  next
    assume "\<exists>a b. x # xs = a @ sub @ b"
    then obtain a b where ab: "x # xs = a @ sub @ b" by blast
    show "str_contains sub (x # xs)"
    proof (cases a)
      case Nil
      with ab have "prefix sub (x # xs)" by (simp add: prefix_def)
      then show ?thesis by simp
    next
      case (Cons y ys)
      with ab have "xs = ys @ sub @ b" by simp
      with Cons.IH have "str_contains sub xs" by blast
      then show ?thesis by simp
    qed
  qed
qed

lemma str_replace_contains_new:
  "old \<noteq> [] \<Longrightarrow> str_contains old s \<Longrightarrow> str_contains new (str_replace old new s)"
proof (induction old new s rule: str_replace.induct)
  case (1 old new)
  then show ?case by simp
next
  case (2 old new x xs)
  show ?case
  proof (cases "prefix old (x # xs)")
    case True
    have "new @ str_replace old new (drop (length old) (x # xs))
            = [] @ new @ str_replace old new (drop (length old) (x # xs))" by simp
    then have "str_contains new (new @ str_replace old new (drop (length old) (x # xs)))"
      unfolding str_contains_iff by blast
    with True "2.prems"(1) show ?thesis by simp
  next
    case False
    with "2.prems" have "str_contains old xs" by simp
    with "2.IH"(3) "2.prems"(1) False have "str_contains new (str_replace old new xs)" by simp
    then obtain a b where "str_replace old new xs = a @ new @ b"
      unfolding str_contains_iff by blast
    then have "x # str_replace old new xs = (x # a) @ new @ b" by simp
    then have "str_contains new (x # str_replace old new xs)"
      unfolding str_contains_iff by blast
    with False "2.prems"(1) show ?thesis by simp
  qed
qed

lemma str_contains_part:
  "str_contains (a @ m @ b) s \<Longrightarrow> str_contains m s"
proof -
  assume "str_contains (a @ m @ b) s"
  then obtain p q where "s = p @ (a @ m @ b) @ q" unfolding str_contains_iff by blast
  then have "s = (p @ a) @ m @ (b @ q)" by simp
  then show ?thesis unfolding str_contains_iff by blast
qed

lemma add_meta_refresh_contains:
  "str_contains (refresh_tag t s) (fst (add_meta_refresh c t s))"
proof (cases "str_contains (refresh_tag t s) c")
  case True
  then show ?thesis by (simp add: add_meta_refresh_def)
next
  case nc: False
  show ?thesis
  proof (cases "str_contains ''</head>'' c")
    case True
    have "str_contains (''  '' @ refresh_tag t s @ ''</head>'')
            (str_replace ''</head>'' (''  '' @ refresh_tag t s @ ''</head>'') c)"
      by (rule str_replace_contains_new[OF _ True]) simp
    then have "str_contains (refresh_tag t s)
            (str_replace ''</head>'' (''  '' @ refresh_tag t s @ ''</head>'') c)"
      by (rule str_contains_part)
    with nc True show ?thesis by (simp add: add_meta_refresh_def del: str_replace.simps)
  next
    case False
    have "refresh_tag t s @ c = [] @ refresh_tag t s @ c" by simp
    then have "str_contains (refresh_tag t s) (refresh_tag t s @ c)"
      unfolding str_contains_iff by blast
    with nc False show ?thesis by (simp add: add_meta_refresh_def)
  qed
qed

text \<open>
  Claim C7.  For every content, target and delay, a second application of the redirect
  injector with the same target and delay returns the output of the first application
  and \<open>changed = False\<close>: the refresh tag is present after the first application.
\<close>

theorem add_meta_refresh_idempotent:
  "add_meta_refresh (fst (add_meta_refresh content target_url seconds)) target_url seconds
     = (fst (add_meta_refresh content target_url seconds), False)"
  using add_meta_refresh_contains[of target_url seconds content]
  by (simp add: add_meta_refresh_def[of "fst (add_meta_refresh content target_url seconds)"])

text \<open>An instance of C7: the sample page, redirected to \<open>/index\<close>.\<close>

theorem add_meta_refresh_idempotent_witness:
  "add_meta_refresh demo_redirect_page ''/index'' 0 = (demo_redirect_page, False)"
  using add_meta_refresh_idempotent[of demo_page "''/index''" 0]
  by (simp add: demo_redirect)

subsection \<open>The backtracking matcher\<close>

lemma try_down_SomeD:
  "try_down k s lo n = Some (m, r) \<Longrightarrow>
     lo \<le> m \<and> m \<le> n \<and> k (drop m s) = Some r \<and> (\<forall>j. m < j \<and> j \<le> n \<longrightarrow> k (drop j s) = None)"
proof (induction n)
  case 0
  then show ?case by (auto split: if_splits)
next
  case (Suc n)
  show ?case
  proof (cases "k (drop (Suc n) s)")
    case None
    with Suc.prems have "try_down k s lo n = Some (m, r)" by (auto split: if_splits)
    from Suc.IH[OF this] None show ?thesis
      by (auto simp: le_Suc_eq)
  next
    case (Some a)
    with Suc.prems show ?thesis by (auto split: if_splits)
  qed
qed

lemma try_down_None_iff:
  "try_down k s lo n = None \<longleftrightarrow> (\<forall>j. lo \<le> j \<and> j \<le> n \<longrightarrow> k (drop j s) = None)"
proof (induction n)
  case 0
  show ?case by auto
next
  case (Suc n)
  show ?case
  proof (cases "Suc n < lo")
    case True
    then show ?thesis by auto
  next
    case False
    show ?thesis
    proof (cases "k (drop (Suc n) s)")
      case None
      with False Suc.IH show ?thesis by (auto simp: le_Suc_eq)
    next
      case (Some a)
      with False show ?thesis by (auto intro!: exI[of _ "Suc n"])
    qed
  qed
qed

lemma try_down_SomeI:
  assumes "lo \<le> m" and "m \<le> n" and "k (drop m s) = Some r"
    and "\<forall>j. m < j \<and> j \<le> n \<longrightarrow> k (drop j s) = None"
  shows "try_down k s lo n = Some (m, r)"
proof (cases "try_down k s lo n")
  case None
  with assms(1-3) show ?thesis by (auto simp: try_down_None_iff)
next
  case (Some p)
  obtain m' r' where p: "p = (m', r')" by force
  from try_down_SomeD[OF Some[unfolded p]]
  have d: "lo \<le> m'" "m' \<le> n" "k (drop m' s) = Some r'"
    "\<forall>j. m' < j \<and> j \<le> n \<longrightarrow> k (drop j s) = None" by auto
  have "m' = m"
  proof (rule ccontr)
    assume "m' \<noteq> m"
    then consider "m' < m" | "m < m'" by linarith
    then show False
    proof cases
      case 1 with d(4) assms(2,3) show False by auto
    next
      case 2 with assms(4) d(2,3) show False by auto
    qed
  qed
  with d(3) assms(3) Some p show ?thesis by simp
qed

lemma ci_prefix_take: "ci_prefix l s \<Longrightarrow> ci_prefix l (take (length l) s) \<and> length l \<le> length s"
  by (induction l s rule: ci_prefix.induct) auto

lemma take_takeWhile_all:
  "m \<le> length (takeWhile P s) \<Longrightarrow> list_all P (take m s)"
proof (induction s arbitrary: m)
  case Nil
  show ?case by simp
next
  case (Cons x xs)
  show ?case
  proof (cases m)
    case 0
    then show ?thesis by simp
  next
    case (Suc m')
    with Cons.prems have px: "P x" and "m' \<le> length (takeWhile P xs)"
      by (auto split: if_splits)
    with Cons.IH[of m'] Suc show ?thesis by simp
  qed
qed

lemma match_items_sound:
  "match_items its s = Some segs \<Longrightarrow> list_all2 seg_ok its segs \<and> prefix (concat segs) s"
proof (induction its arbitrary: s segs)
  case Nil
  then show ?case by simp
next
  case (Cons it its)
  show ?case
  proof (cases it)
    case (Lit l)
    with Cons.prems obtain segs' where cp: "ci_prefix l s"
      and m: "match_items its (drop (length l) s) = Some segs'"
      and segs: "segs = take (length l) s # segs'"
      by (auto split: if_splits)
    from Cons.IH[OF m] have ih: "list_all2 seg_ok its segs'"
      "prefix (concat segs') (drop (length l) s)" by auto
    from ih(2) have "prefix (take (length l) s @ concat segs') (take (length l) s @ drop (length l) s)"
      by (simp only: same_prefix_prefix)
    then have "prefix (concat segs) s" by (simp add: segs)
    with ih(1) ci_prefix_take[OF cp] show ?thesis by (simp add: Lit segs min_def)
  next
    case (AnyOf cs)
    with Cons.prems obtain x xs segs' where s: "s = x # xs" and x: "x \<in> set cs"
      and m: "match_items its xs = Some segs'" and segs: "segs = [x] # segs'"
      by (auto split: list.splits if_splits)
    from Cons.IH[OF m] show ?thesis by (simp add: AnyOf segs s x)
  next
    case (StarNoneOf cs)
    with Cons.prems obtain n segs' where
      t: "try_down (match_items its) s 0 (length (takeWhile (\<lambda>c. c \<notin> set cs) s)) = Some (n, segs')"
      and segs: "segs = take n s # segs'" by auto
    from try_down_SomeD[OF t] have n: "n \<le> length (takeWhile (\<lambda>c. c \<notin> set cs) s)"
      and m: "match_items its (drop n s) = Some segs'" by auto
    from Cons.IH[OF m] have ih: "list_all2 seg_ok its segs'" "prefix (concat segs') (drop n s)" by auto
    from ih(2) have "prefix (take n s @ concat segs') (take n s @ drop n s)"
      by (simp only: same_prefix_prefix)
    then have "prefix (concat segs) s" by (simp add: segs)
    with ih(1) take_takeWhile_all[OF n] show ?thesis by (simp add: StarNoneOf segs)
  next
    case (PlusNoneOf cs)
    with Cons.prems obtain n segs' where
      t: "try_down (match_items its) s 1 (length (takeWhile (\<lambda>c. c \<notin> set cs) s)) = Some (n, segs')"
      and segs: "segs = take n s # segs'" by auto
    from try_down_SomeD[OF t] have n: "n \<le> length (takeWhile (\<lambda>c. c \<notin> set cs) s)"
      and n1: "1 \<le> n"
      and m: "match_items its (drop n s) = Some segs'" by auto
    from n n1 have ne: "take n s \<noteq> []" by (cases s) auto
    from Cons.IH[OF m] have ih: "list_all2 seg_ok its segs'" "prefix (concat segs') (drop n s)" by auto
    from ih(2) have "prefix (take n s @ concat segs') (take n s @ drop n s)"
      by (simp only: same_prefix_prefix)
    then have "prefix (concat segs) s" by (simp add: segs)
    with ih(1) take_takeWhile_all[OF n] ne show ?thesis by (simp add: PlusNoneOf segs)
  qed
qed

lemma render_simps [simp]:
  "render f [] = []"
  "render f (Inl x # ts) = x # render f ts"
  "render f (Inr m # ts) = f m @ render f ts"
  by (simp_all add: render_def)

lemma tags_simps [simp]:
  "tags [] = []"
  "tags (Inl x # ts) = tags ts"
  "tags (Inr m # ts) = m # tags ts"
  by (simp_all add: tags_def)

lemma re_sub_render: "re_sub re repl s = render repl (re_scan re s)"
  by (induction re s rule: re_scan.induct) (auto split: option.splits)

lemma ci_prefix_append: "length l \<le> length a \<Longrightarrow> ci_prefix l (a @ b) = ci_prefix l a"
  by (induction l a rule: ci_prefix.induct) auto

lemma canon_match_groups:
  assumes "re_match_at CANONICAL_RE s = Some (gs, n)"
  shows "canon_tag_ok gs \<and> n = length (gs ! 0 @ gs ! 1 @ gs ! 2) \<and> 0 < n
           \<and> take n s = gs ! 0 @ gs ! 1 @ gs ! 2"
proof -
  from assms obtain segs where m: "match_items (concat CANONICAL_RE) s = Some segs"
    and gs: "gs = regroup CANONICAL_RE segs" and n: "n = length (concat segs)"
    by (auto simp: re_match_at_def)
  from match_items_sound[OF m] have l2: "list_all2 seg_ok (concat CANONICAL_RE) segs"
    and pre: "prefix (concat segs) s" by auto
  from l2 obtain s1 s2 s3 s4 s5 s6 s7 s8 s9 s10 s11 s12 s13 where
    segs: "segs = [s1, s2, s3, s4, s5, s6, s7, s8, s9, s10, s11, s12, s13]"
    and ok: "seg_ok (Lit ''<link'') s1" "seg_ok (AnyOf quote_chars) s9"
      "seg_ok (PlusNoneOf quote_chars) s10" "seg_ok (AnyOf quote_chars) s11"
      "seg_ok (Lit ''>'') s13"
    by (auto simp: CANONICAL_RE_def list_all2_Cons1)
  from ok(2) obtain q where s9: "s9 = [q]" "q \<in> set quote_chars"
    by (auto split: list.splits)
  from ok(4) obtain q' where s11: "s11 = [q']" "q' \<in> set quote_chars"
    by (auto split: list.splits)
  from ok(5) obtain e where s13: "s13 = [e]" "ci_eq CHR ''>'' e"
    by (cases s13) auto
  then have e: "e = CHR ''>''" by (auto simp: ci_eq_def lower_char_def split: if_splits)
  have g: "gs = [s1 @ s2 @ s3 @ s4 @ s5 @ s6 @ s7 @ s8 @ s9, s10, s11 @ s12 @ s13]"
    by (simp add: gs segs CANONICAL_RE_def)
  from ok(1) have l1: "length s1 = 5" "ci_prefix ''<link'' s1" by auto
  then have cp: "ci_prefix ''<link'' (s1 @ s2 @ s3 @ s4 @ s5 @ s6 @ s7 @ s8 @ s9)"
    by (simp add: ci_prefix_append)
  have tk: "take n s = concat segs" using pre n by (auto simp: prefix_def)
  show ?thesis
    using ok(3) s9 s11 s13 e cp l1(1) tk n
    by (simp add: canon_tag_ok_def g segs)
qed

lemma scan_original:
  "render (\<lambda>m. m ! 0 @ m ! 1 @ m ! 2) (re_scan CANONICAL_RE s) = s"
proof (induction "CANONICAL_RE" s rule: re_scan.induct)
  case 1
  show ?case using canon_match_groups[of "[]"] by (auto split: option.splits)
next
  case (2 x xs)
  show ?case
  proof (cases "re_match_at CANONICAL_RE (x # xs)")
    case None
    with 2 show ?thesis by simp
  next
    case (Some p)
    obtain gs n where p: "p = (gs, n)" by force
    from canon_match_groups[OF Some[unfolded p]]
    have n: "0 < n" and tk: "take n (x # xs) = gs ! 0 @ gs ! 1 @ gs ! 2" by auto
    from 2(3)[OF Some[unfolded p] refl] n
    have "render (\<lambda>m. m ! 0 @ m ! 1 @ m ! 2) (re_scan CANONICAL_RE (drop n (x # xs)))
            = drop n (x # xs)" by simp
    with Some p n tk[symmetric] show ?thesis by (simp del: take_Suc_Cons drop_Suc_Cons)
  qed
qed

lemma scan_tags_ok: "\<forall>m \<in> set (tags (re_scan CANONICAL_RE s)). canon_tag_ok m"
proof (induction "CANONICAL_RE" s rule: re_scan.induct)
  case 1
  show ?case using canon_match_groups[of "[]"] by (auto split: option.splits)
next
  case (2 x xs)
  show ?case
  proof (cases "re_match_at CANONICAL_RE (x # xs)")
    case None
    with 2 show ?thesis by simp
  next
    case (Some p)
    obtain gs n where p: "p = (gs, n)" by force
    from canon_match_groups[OF Some[unfolded p]] have n: "0 < n" and ok: "canon_tag_ok gs" by auto
    from 2(3)[OF Some[unfolded p] refl] n ok Some p show ?thesis by simp
  qed
qed

lemma search_has_tag: "re_search re s \<Longrightarrow> tags (re_scan re s) \<noteq> []"
  by (induction re s rule: re_scan.induct) (auto split: option.splits)

lemma quote_clash:
  assumes "z \<noteq> []" and "y \<noteq> []" and "last y \<in> Q" and "set g \<inter> Q = {}"
    and "(z @ y) @ w = y @ g"
  shows False
proof -
  have "length ((z @ y) @ w) = length (y @ g)" by (simp only: assms(5))
  then have len: "length z + length w = length g" by simp
  let ?i = "length z + length y - 1"
  have i1: "?i < length (z @ y)" using assms(1,2) by (cases y) auto
  have i2: "length y \<le> ?i" using assms(1) by (cases z) auto
  have "((z @ y) @ w) ! ?i = (z @ y) ! ?i" using i1 by (simp only: nth_append if_True)
  also have "\<dots> = y ! (length y - 1)"
    using assms(1,2) by (cases y) (auto simp: nth_append)
  also have "\<dots> = last y" using assms(2) by (simp add: last_conv_nth)
  finally have l: "((z @ y) @ w) ! ?i = last y" .
  have "(y @ g) ! ?i = g ! (?i - length y)" using i2 by (simp add: nth_append)
  moreover have "?i - length y < length g" using len assms(1) by (cases z) auto
  ultimately have "(y @ g) ! ?i \<in> set g" by simp
  with l assms(3,4,5) show False by auto
qed

lemma new_ahead:
  assumes "\<forall>m \<in> set (tags ts). canon_tag_ok m" and "z \<noteq> []"
  shows "z @ y @ render (\<lambda>m. m ! 0 @ u @ m ! 2) ts \<noteq> y @ render (\<lambda>m. m ! 0 @ m ! 1 @ m ! 2) ts"
  using assms
proof (induction ts arbitrary: z y)
  case Nil
  then show ?case by simp
next
  case (Cons t ts)
  let ?N = "render (\<lambda>m. m ! 0 @ u @ m ! 2) ts"
  let ?O = "render (\<lambda>m. m ! 0 @ m ! 1 @ m ! 2) ts"
  show ?case
  proof (cases t)
    case (Inl x)
    from Cons.IH[of z "y @ [x]"] Cons.prems Inl show ?thesis by simp
  next
    case (Inr m)
    with Cons.prems have ok: "canon_tag_ok m" and oks: "\<forall>m \<in> set (tags ts). canon_tag_ok m"
      by auto
    define g1 g2 g3 where "g1 = m ! 0" and "g2 = m ! 1" and "g3 = m ! 2"
    from ok have g1: "g1 \<noteq> []" "last g1 \<in> set quote_chars"
      and g2: "set g2 \<inter> set quote_chars = {}"
      by (auto simp: canon_tag_ok_def g1_def g2_def list_all_iff)
    show ?thesis
    proof
      assume "z @ y @ render (\<lambda>m. m ! 0 @ u @ m ! 2) (t # ts)
                = y @ render (\<lambda>m. m ! 0 @ m ! 1 @ m ! 2) (t # ts)"
      then have eq: "(z @ (y @ g1)) @ (u @ g3 @ ?N) = ((y @ g1) @ g2) @ (g3 @ ?O)"
        by (simp add: Inr g1_def g2_def g3_def)
      have y': "y @ g1 \<noteq> []" "last (y @ g1) \<in> set quote_chars" using g1 by auto
      from eq append_eq_append_conv2[of "z @ (y @ g1)" "u @ g3 @ ?N" "(y @ g1) @ g2" "g3 @ ?O"]
      obtain w where
        w: "z @ (y @ g1) = ((y @ g1) @ g2) @ w \<and> w @ u @ g3 @ ?N = g3 @ ?O
            \<or> (z @ (y @ g1)) @ w = (y @ g1) @ g2 \<and> u @ g3 @ ?N = w @ g3 @ ?O"
        by blast
      then show False
      proof
        assume a: "z @ (y @ g1) = ((y @ g1) @ g2) @ w \<and> w @ u @ g3 @ ?N = g3 @ ?O"
        show False
        proof (cases "w = []")
          case True
          with a have "(z @ (y @ g1)) @ [] = (y @ g1) @ g2" by simp
          from quote_clash[OF Cons.prems(2) y' g2 this] show False .
        next
          case False
          then have "w @ u \<noteq> []" by simp
          from Cons.IH[OF oks this, of g3] a show False by (simp only: append_assoc)
        qed
      next
        assume "(z @ (y @ g1)) @ w = (y @ g1) @ g2 \<and> u @ g3 @ ?N = w @ g3 @ ?O"
        then have "(z @ (y @ g1)) @ w = (y @ g1) @ g2" by simp
        from quote_clash[OF Cons.prems(2) y' g2 this] show False .
      qed
    qed
  qed
qed

lemma same_render_values:
  assumes "\<forall>m \<in> set (tags ts). canon_tag_ok m"
    and "render (\<lambda>m. m ! 0 @ u @ m ! 2) ts = render (\<lambda>m. m ! 0 @ m ! 1 @ m ! 2) ts"
  shows "\<forall>m \<in> set (tags ts). m ! 1 = u"
  using assms
proof (induction ts)
  case Nil
  show ?case by simp
next
  case (Cons t ts)
  let ?N = "render (\<lambda>m. m ! 0 @ u @ m ! 2) ts"
  let ?O = "render (\<lambda>m. m ! 0 @ m ! 1 @ m ! 2) ts"
  show ?case
  proof (cases t)
    case (Inl x)
    with Cons show ?thesis by simp
  next
    case (Inr m)
    with Cons.prems have ok: "canon_tag_ok m" and oks: "\<forall>m \<in> set (tags ts). canon_tag_ok m"
      by auto
    define g2 g3 where "g2 = m ! 1" and "g3 = m ! 2"
    from ok have g2: "set g2 \<inter> set quote_chars = {}"
      and g3: "g3 \<noteq> []" "hd g3 \<in> set quote_chars"
      by (auto simp: canon_tag_ok_def g2_def g3_def list_all_iff)
    from Cons.prems(2) have eq: "u @ (g3 @ ?N) = g2 @ (g3 @ ?O)"
      by (simp add: Inr g2_def g3_def)
    from eq append_eq_append_conv2[of u "g3 @ ?N" g2 "g3 @ ?O"] obtain w where
      w: "u = g2 @ w \<and> w @ g3 @ ?N = g3 @ ?O \<or> u @ w = g2 \<and> g3 @ ?N = w @ g3 @ ?O"
      by blast
    have "w = []"
    proof (rule ccontr)
      assume ne: "w \<noteq> []"
      from w show False
      proof
        assume "u = g2 @ w \<and> w @ g3 @ ?N = g3 @ ?O"
        with new_ahead[OF oks ne, of g3 u] show False by blast
      next
        assume a: "u @ w = g2 \<and> g3 @ ?N = w @ g3 @ ?O"
        then have "hd (g3 @ ?N) = hd (w @ g3 @ ?O)" by simp
        with g3 ne have "hd g3 = hd w" by simp
        moreover have "hd w \<in> set g2" using a ne by (cases w) auto
        ultimately show False using g3(2) g2 by auto
      qed
    qed
    with w have "g2 = u" "?N = ?O" by auto
    with Cons.IH[OF oks] Inr show ?thesis by (simp add: g2_def)
  qed
qed

lemma same_values_render:
  "\<forall>m \<in> set (tags ts). m ! 1 = u \<Longrightarrow>
     render (\<lambda>m. m ! 0 @ u @ m ! 2) ts = render (\<lambda>m. m ! 0 @ m ! 1 @ m ! 2) ts"
proof (induction ts)
  case Nil
  show ?case by simp
next
  case (Cons t ts)
  then show ?case by (cases t) auto
qed

text \<open>
  Claim C8.  For a content in which the pattern finds a canonical tag, let the scan of
  the content be its list of copied characters and matched tags.  The content is the
  rendering of the scan; the output of the injector is the same rendering with the
  \<open>href\<close> value of every matched tag replaced by the URL and nothing else touched
  (the tag up to the opening quote, and everything from the closing quote on, stay as
  they are, as do all characters outside the tags); and \<open>changed\<close> is true exactly when
  the value of some matched tag differs from the URL.
\<close>

theorem canonical_href_replaced:
  assumes "re_search CANONICAL_RE content"
    and "ts = re_scan CANONICAL_RE content"
  shows "tags ts \<noteq> [] \<and> (\<forall>m \<in> set (tags ts). canon_tag_ok m)
       \<and> content = render (\<lambda>m. m ! 0 @ m ! 1 @ m ! 2) ts
       \<and> fst (add_canonical_to_html content url) = render (\<lambda>m. m ! 0 @ url @ m ! 2) ts
       \<and> (snd (add_canonical_to_html content url) \<longleftrightarrow> (\<exists>m \<in> set (tags ts). m ! 1 \<noteq> url))"
proof -
  have ok: "\<forall>m \<in> set (tags ts). canon_tag_ok m" unfolding assms(2) by (rule scan_tags_ok)
  have orig: "content = render (\<lambda>m. m ! 0 @ m ! 1 @ m ! 2) ts"
    unfolding assms(2) by (rule scan_original[symmetric])
  have new: "fst (add_canonical_to_html content url) = render (\<lambda>m. m ! 0 @ url @ m ! 2) ts"
    using assms(1) by (simp add: add_canonical_to_html_def Let_def re_sub_render assms(2))
  have e1: "snd (add_canonical_to_html content url)
          \<longleftrightarrow> render (\<lambda>m. m ! 0 @ url @ m ! 2) ts \<noteq> content"
    using assms(1) by (simp add: add_canonical_to_html_def Let_def re_sub_render assms(2))
  from orig have e2: "(render (\<lambda>m. m ! 0 @ url @ m ! 2) ts = content)
          = (render (\<lambda>m. m ! 0 @ url @ m ! 2) ts = render (\<lambda>m. m ! 0 @ m ! 1 @ m ! 2) ts)"
    by (rule arg_cong)
  have e3: "(render (\<lambda>m. m ! 0 @ url @ m ! 2) ts = render (\<lambda>m. m ! 0 @ m ! 1 @ m ! 2) ts)
          \<longleftrightarrow> (\<forall>m \<in> set (tags ts). m ! 1 = url)"
    using same_render_values[OF ok, of url] same_values_render[of ts url] by blast
  have ch: "snd (add_canonical_to_html content url)
          \<longleftrightarrow> (\<exists>m \<in> set (tags ts). m ! 1 \<noteq> url)"
    unfolding e1 e2 e3 by blast
  from search_has_tag[OF assms(1)] have "tags ts \<noteq> []" by (simp add: assms(2))
  with ok orig new ch show ?thesis by blast
qed

lemma demo_tagged_match:
  "re_match_at CANONICAL_RE demo_tagged = Some (demo_tag, 40)"
  by (simp add: re_match_at_def CANONICAL_RE_def demo_tagged_def demo_tag_def quote_chars_def
        ci_eq_def lower_char_def)

lemma demo_tagged_scan: "re_scan CANONICAL_RE demo_tagged = [Inr demo_tag, Inl CHR ''.'']"
proof -
  have "re_scan CANONICAL_RE demo_tagged = Inr demo_tag # re_scan CANONICAL_RE ''.''"
    using demo_tagged_match by (simp add: demo_tagged_def)
  moreover have "re_match_at CANONICAL_RE ''.'' = None"
    by (simp add: re_match_at_def CANONICAL_RE_def ci_eq_def lower_char_def)
  moreover have "re_match_at CANONICAL_RE [] = None"
    by (simp add: re_match_at_def CANONICAL_RE_def)
  ultimately show ?thesis by simp
qed

text \<open>
  An instance of C8: a tag with single quotes and another attribute; a new URL changes
  only the value, the old URL changes nothing.
\<close>

theorem canonical_href_replaced_witness:
  "add_canonical_to_html demo_tagged ''https://gotoolly.com/x''
     = (''<link rel='' @ [dquote] @ ''canonical'' @ [dquote] @ '' id=c href=''
          @ [squote] @ ''https://gotoolly.com/x'' @ [squote] @ '' >.'', True)
   \<and> add_canonical_to_html demo_tagged ''/old'' = (demo_tagged, False)"
proof -
  have s: "re_search CANONICAL_RE demo_tagged"
    using demo_tagged_match by (simp add: demo_tagged_def)
  have t: "[Inr demo_tag, Inl CHR ''.''] = re_scan CANONICAL_RE demo_tagged"
    by (simp add: demo_tagged_scan)
  have a: "fst (add_canonical_to_html demo_tagged ''https://gotoolly.com/x'')
             = ''<link rel='' @ [dquote] @ ''canonical'' @ [dquote] @ '' id=c href=''
                 @ [squote] @ ''https://gotoolly.com/x'' @ [squote] @ '' >.''"
    "snd (add_canonical_to_html demo_tagged ''https://gotoolly.com/x'')"
    using canonical_href_replaced[OF s t, of "''https://gotoolly.com/x''"]
    by (simp_all add: demo_tag_def)
  have b: "fst (add_canonical_to_html demo_tagged ''/old'') = demo_tagged"
    "\<not> snd (add_canonical_to_html demo_tagged ''/old'')"
    using canonical_href_replaced[OF s t, of "''/old''"]
    by (simp_all add: demo_tag_def demo_tagged_def)
  from a b show ?thesis by (simp add: prod_eq_iff)
qed

section \<open>Applying changes\<close>

subsection \<open>File operations\<close>


















subsection \<open>Existing targets\<close>









lemma cx_legacy_find:
  "find_page_files cx_legacy_fs
     [[''/'', ''s'', ''pages'', ''pages.html''], [''/'', ''s'', ''pages'', ''index.html'']] cx_root
   = [[''/'', ''s'', ''pages'', ''pages.html''], [''/'', ''s'', ''pages'', ''index.html'']]"
  by (simp add: find_page_files_def rglob_html_def cx_legacy_fs_def cx_root_def fs_exists_plain
        node_at_def valid_name_def EXCLUDE_DIRS_def suffix_def strict_prefix_def)







subsection \<open>Forced overwrites\<close>















subsection \<open>The legacy redirect\<close>






end
